theory Spec2Isabelle
  imports Main
begin

section \<open>The module \<open>arithmetique\<close>: data model\<close>

text \<open>
  All values of the module are Python integers, which are unbounded: they are modelled by
  \<^typ>\<open>int\<close>. Python's \<open>//\<close> and \<open>%\<close> are floor division and the remainder
  that has the sign of the divisor, as \<open>div\<close> and \<open>mod\<close> on \<^typ>\<open>int\<close> are; where the
  divisor may be zero the model raises \<open>ZeroDivisionError\<close> explicitly.

  A call that raises returns \<open>Raise e\<close>. A loop whose termination depends on its
  arguments is a \<^theory_text>\<open>partial_function (option)\<close>: the value \<open>None\<close> is a call that
  never returns.
\<close>

datatype error =
    ZeroDivisionError
  | ValueError
  | AssertionError_n_nul            \<comment> \<open>\<open>assert n != 0\<close> of \<open>inverse_mod\<close>\<close>
  | AssertionError_non_inversible   \<comment> \<open>\<open>assert d == 1\<close> of \<open>inverse_mod\<close>\<close>

datatype 'a result = Return 'a | Raise error

section \<open>Euclidean division by repeated subtraction\<close>

text \<open>
  \<open>mon_divmod\<close>: \<open>q, r = 0, a\<close>, then \<open>while r >= b: q = q + 1; r = r - b\<close>.
  There is no check of \<open>b\<close>, and nothing can raise.
\<close>

partial_function (option) mon_divmod_loop :: "int \<Rightarrow> int \<Rightarrow> int \<Rightarrow> (int \<times> int) option" where
  "mon_divmod_loop b q r = (if r \<ge> b then mon_divmod_loop b (q + 1) (r - b) else Some (q, r))"


section \<open>Greatest common divisor\<close>

text \<open>
  \<open>pgcd\<close>: \<open>a1, b1 = abs(a), abs(b)\<close>, then \<open>while b1 != 0: a1, b1 = b1, a1 % b1\<close>,
  and the result is \<open>abs(a1)\<close>. The divisor \<open>b1\<close> is nonzero inside the loop.
\<close>

function pgcd_loop :: "int \<Rightarrow> int \<Rightarrow> int" where
  "pgcd_loop a1 b1 = (if b1 \<noteq> 0 then pgcd_loop b1 (a1 mod b1) else a1)"
  by pat_completeness auto
termination
  by (relation "measure (\<lambda>(a1, b1). nat \<bar>b1\<bar>)") (auto simp: abs_mod_less)

definition pgcd :: "int \<Rightarrow> int \<Rightarrow> int" where
  "pgcd a b = \<bar>pgcd_loop \<bar>a\<bar> \<bar>b\<bar>\<bar>"

section \<open>Extended Euclidean algorithm\<close>

text \<open>
  \<open>euclide_etendu\<close>: the loop state is \<open>(r0, r1, u0, u1, v0, v1)\<close>; each turn takes
  \<open>q, r = divmod(r0, r1)\<close> with \<open>r1 != 0\<close>. After the loop a negative \<open>r0\<close> is negated
  together with \<open>u0\<close> and \<open>v0\<close>.
\<close>

function euclide_loop :: "int \<Rightarrow> int \<Rightarrow> int \<Rightarrow> int \<Rightarrow> int \<Rightarrow> int \<Rightarrow> int \<times> int \<times> int" where
  "euclide_loop r0 r1 u0 u1 v0 v1 =
     (if r1 \<noteq> 0 then
        (let q = r0 div r1; r = r0 mod r1
         in euclide_loop r1 r u1 (u0 - q * u1) v1 (v0 - q * v1))
      else (r0, u0, v0))"
  by pat_completeness auto
termination
  by (relation "measure (\<lambda>(r0, r1, u0, u1, v0, v1). nat \<bar>r1\<bar>)") (auto simp: abs_mod_less)

definition euclide_etendu :: "int \<Rightarrow> int \<Rightarrow> int \<times> int \<times> int" where
  "euclide_etendu a b =
     (case euclide_loop a b 1 0 0 1 of
        (r0, u0, v0) \<Rightarrow> if r0 < 0 then (- r0, - u0, - v0) else (r0, u0, v0))"

section \<open>Modular inverse\<close>

text \<open>
  \<open>inverse_mod\<close>: \<open>assert n != 0\<close>, then \<open>d, u, v = euclide_etendu(a, n)\<close>,
  \<open>assert d == 1\<close>, and the result is \<open>u % n\<close>. The two assertions are explicit
  checks; each failure is an error of its own here.
\<close>

definition inverse_mod :: "int \<Rightarrow> int \<Rightarrow> int result" where
  "inverse_mod a n =
     (if n \<noteq> 0 then
        (case euclide_etendu a n of
           (d, u, v) \<Rightarrow> if d = 1 then Return (u mod n) else Raise AssertionError_non_inversible)
      else Raise AssertionError_n_nul)"

section \<open>Linear Diophantine equations\<close>

text \<open>
  \<open>resoud_equation\<close>: \<open>d = pgcd(a, b)\<close> and \<open>c1, r = divmod(c, d)\<close>, which raises
  \<open>ZeroDivisionError\<close> when \<open>d = 0\<close>. The empty tuple \<open>()\<close> is \<open>None\<close>; the pair of
  pairs \<open>((x0, y0), (-b1, a1))\<close> is \<open>Some\<close> of it.
\<close>

definition resoud_equation :: "int \<Rightarrow> int \<Rightarrow> int \<Rightarrow> ((int \<times> int) \<times> (int \<times> int)) option result" where
  "resoud_equation a b c =
     (let d = pgcd a b in
      if d = 0 then Raise ZeroDivisionError
      else
        (let c1 = c div d; r = c mod d in
         if r \<noteq> 0 then Return None
         else
           (let a1 = a div d; b1 = b div d in
            case euclide_etendu a1 b1 of
              (d', u, v) \<Rightarrow>
                (let x0 = c1 * u; y0 = c1 * v in Return (Some ((x0, y0), (- b1, a1)))))))"

section \<open>Sieve of Eratosthenes\<close>

text \<open>
  \<open>eratosthene\<close>: \<open>premiers\<close> is a list and \<open>barres\<close> a set. The inner loop
  \<open>while mp <= n: barres.add(mp); mp += p\<close> is \<open>eratosthene_barre\<close>; the outer loop
  \<open>while p * p <= n\<close> is \<open>eratosthene_crible\<close>, which returns the three variables that
  the final \<open>for k in range(p, n + 1)\<close> reads.
\<close>

partial_function (option) eratosthene_barre :: "int \<Rightarrow> int \<Rightarrow> int set \<Rightarrow> int \<Rightarrow> int set option" where
  "eratosthene_barre n p barres mp =
     (if mp \<le> n then eratosthene_barre n p (insert mp barres) (mp + p) else Some barres)"

partial_function (option) eratosthene_crible ::
    "int \<Rightarrow> int list \<Rightarrow> int set \<Rightarrow> int \<Rightarrow> (int list \<times> int set \<times> int) option" where
  "eratosthene_crible n premiers barres p =
     (if p * p \<le> n then
        (if p \<notin> barres then
           Option.bind (eratosthene_barre n p barres (p + p))
             (\<lambda>barres'. eratosthene_crible n (premiers @ [p]) barres' (p + 1))
         else eratosthene_crible n premiers barres (p + 1))
      else Some (premiers, barres, p))"

definition eratosthene :: "int \<Rightarrow> int list option" where
  "eratosthene n =
     Option.bind (eratosthene_crible n [] {} 2)
       (\<lambda>(premiers, barres, p).
          Some (fold (\<lambda>k premiers. if k \<notin> barres then premiers @ [k] else premiers)
                  [p..n] premiers))"

text \<open>\<open>est_premier1\<close>: \<open>n in eratosthene(n)\<close>.\<close>

definition est_premier1 :: "int \<Rightarrow> bool option" where
  "est_premier1 n = map_option (\<lambda>premiers. n \<in> set premiers) (eratosthene n)"

section \<open>Factorisation by trial division\<close>

text \<open>
  \<open>factorise\<close>: the loop state is \<open>(m, facteurs, p, alpha)\<close>. The divisor candidate
  \<open>p\<close> starts at 2 and only grows, so \<open>m % p\<close> and \<open>m // p\<close> never divide by zero.
\<close>

partial_function (option) factorise_loop ::
    "int \<Rightarrow> (int \<times> int) list \<Rightarrow> int \<Rightarrow> int \<Rightarrow> (int \<times> int) list option" where
  "factorise_loop m facteurs p alpha =
     (if m \<noteq> 1 then
        (if m mod p = 0 then factorise_loop (m div p) facteurs p (alpha + 1)
         else factorise_loop m
                (if alpha \<noteq> 0 then facteurs @ [(p, alpha)] else facteurs) (p + 1) 0)
      else Some (if alpha \<noteq> 0 then facteurs @ [(p, alpha)] else facteurs))"

definition factorise :: "int \<Rightarrow> (int \<times> int) list option" where
  "factorise n = factorise_loop n [] 2 0"

section \<open>Smallest divisor and the second primality test\<close>

text \<open>
  \<open>plus_petit_diviseur\<close>: \<open>d = 2\<close>, then \<open>while d * d <= n and n % d != 0: d += 1\<close>;
  the result is \<open>d\<close> if \<open>d * d <= n\<close> and \<open>n\<close> otherwise. The candidate \<open>d\<close> is at
  least 2, so \<open>n % d\<close> never divides by zero.
\<close>

function plus_petit_diviseur_loop :: "int \<Rightarrow> int \<Rightarrow> int" where
  "plus_petit_diviseur_loop n d =
     (if d * d \<le> n \<and> n mod d \<noteq> 0 then plus_petit_diviseur_loop n (d + 1) else d)"
  by pat_completeness auto
termination
proof (relation "measure (\<lambda>(n, d). nat (n + 1 - d))")
  show "wf (measure (\<lambda>(n, d). nat (n + 1 - d)))" by simp
next
  fix n d :: int
  assume "d * d \<le> n \<and> n mod d \<noteq> 0"
  then have "d * d \<le> n" by simp
  moreover have "d \<le> d * d"
  proof (cases "d \<le> 0")
    case True
    then show ?thesis using zero_le_square [of d] by linarith
  next
    case False
    then have "d * 1 \<le> d * d" by (intro mult_left_mono) simp_all
    then show ?thesis by simp
  qed
  ultimately show "((n, d + 1), (n, d)) \<in> measure (\<lambda>(n, d). nat (n + 1 - d))"
    by simp
qed

definition plus_petit_diviseur :: "int \<Rightarrow> int" where
  "plus_petit_diviseur n =
     (let d = plus_petit_diviseur_loop n 2 in if d * d \<le> n then d else n)"

definition est_premier2 :: "int \<Rightarrow> bool" where
  "est_premier2 n = (plus_petit_diviseur n = n)"

section \<open>Fast modular exponentiation\<close>

text \<open>
  \<open>expo_mod_rapide\<close>: \<open>r, s, k = 1, a, b\<close>, then \<open>while k != 0\<close>. Each turn computes
  \<open>(s * s) % n\<close>, and \<open>(r * s) % n\<close> before it when \<open>k\<close> is odd, so a turn with
  \<open>n = 0\<close> raises \<open>ZeroDivisionError\<close>. With \<open>k < 0\<close> the halving \<open>k // 2\<close> never
  reaches 0.
\<close>

partial_function (option) expo_mod_rapide_loop :: "int \<Rightarrow> int \<Rightarrow> int \<Rightarrow> int \<Rightarrow> int result option" where
  "expo_mod_rapide_loop n r s k =
     (if k \<noteq> 0 then
        (if n = 0 then Some (Raise ZeroDivisionError)
         else expo_mod_rapide_loop n (if k mod 2 = 1 then (r * s) mod n else r)
                ((s * s) mod n) (k div 2))
      else Some (Return r))"

definition expo_mod_rapide :: "int \<Rightarrow> int \<Rightarrow> int \<Rightarrow> int result option" where
  "expo_mod_rapide a b n = expo_mod_rapide_loop n 1 a b"

section \<open>Fermat witnesses and the probabilistic test\<close>

text \<open>
  \<open>est_temoin_non_primalite\<close>: \<open>pgcd(a, n) == 1 and expo_mod_rapide(a, n - 1, n) != 1\<close>;
  the right operand of \<open>and\<close> is evaluated only when the left one holds.
\<close>

definition est_temoin_non_primalite :: "int \<Rightarrow> int \<Rightarrow> bool result option" where
  "est_temoin_non_primalite a n =
     (if pgcd a n = 1 then
        (case expo_mod_rapide a (n - 1) n of
           None \<Rightarrow> None
         | Some (Raise e) \<Rightarrow> Some (Raise e)
         | Some (Return r) \<Rightarrow> Some (Return (r \<noteq> 1)))
      else Some (Return False))"

text \<open>
  \<open>randrange(start, stop)\<close> is the function of Python's \<open>random\<close> library: it raises
  \<open>ValueError\<close> when the range \<open>[start, stop)\<close> is empty and returns a member of the
  range otherwise. The module calls the name without importing it; the model takes it to
  be the library function. The random source is injected: \<open>x\<close> is the value the
  source delivers for this call.
\<close>

definition randrange :: "int \<Rightarrow> int \<Rightarrow> int \<Rightarrow> int result" where
  "randrange start stop x = (if start \<ge> stop then Raise ValueError else Return x)"

text \<open>
  \<open>est_premier_probable_fermat\<close>: \<open>not any(est_temoin_non_primalite(randrange(2, n-1), n)
  for k in range(nbtentatives))\<close>. The generator is consumed by \<open>any\<close> one element at a
  time and no further than the first true element; \<open>src i\<close> is the \<open>i\<close>-th draw of the
  injected source, and \<open>range(nbtentatives)\<close> has \<open>nat nbtentatives\<close> elements.
\<close>

fun any_temoin :: "int \<Rightarrow> (nat \<Rightarrow> int) \<Rightarrow> nat \<Rightarrow> nat \<Rightarrow> bool result option" where
  "any_temoin n src i 0 = Some (Return False)"
| "any_temoin n src i (Suc k) =
     (case randrange 2 (n - 1) (src i) of
        Raise e \<Rightarrow> Some (Raise e)
      | Return a \<Rightarrow>
          (case est_temoin_non_primalite a n of
             None \<Rightarrow> None
           | Some (Raise e) \<Rightarrow> Some (Raise e)
           | Some (Return t) \<Rightarrow>
               if t then Some (Return True) else any_temoin n src (Suc i) k))"

definition est_premier_probable_fermat :: "int \<Rightarrow> int \<Rightarrow> (nat \<Rightarrow> int) \<Rightarrow> bool result option" where
  "est_premier_probable_fermat n nbtentatives src =
     (case any_temoin n src 0 (nat nbtentatives) of
        None \<Rightarrow> None
      | Some (Raise e) \<Rightarrow> Some (Raise e)
      | Some (Return t) \<Rightarrow> Some (Return (\<not> t)))"

section \<open>Primality as the specification states it\<close>

text \<open>
  An integer is prime when it is at least 2 and has no divisor other than 1 and itself.
  The candidates to exclude are the members of \<open>{2..k - 1}\<close>, so the predicate computes;
  \<open>premier_iff\<close> below gives the reading over all positive divisors.
\<close>

definition premier :: "int \<Rightarrow> bool" where
  "premier k \<longleftrightarrow> 2 \<le> k \<and> (\<forall>d \<in> {2..k - 1}. \<not> d dvd k)"

text \<open>
  A factor list is well formed when its first components are prime and strictly ascending
  and its exponents are at least 1; its value is the product of the prime powers.
\<close>

definition facteurs_ok :: "(int \<times> int) list \<Rightarrow> bool" where
  "facteurs_ok fs \<longleftrightarrow>
     (\<forall>(p, alpha) \<in> set fs. premier p \<and> 1 \<le> alpha) \<and> sorted_wrt (<) (map fst fs)"

definition produit :: "(int \<times> int) list \<Rightarrow> int" where
  "produit fs = prod_list (map (\<lambda>(p, alpha). p ^ nat alpha) fs)"

text \<open>
  The invariant of the sieve: before the turn of the outer loop for \<open>p\<close>, the marked
  numbers are the numbers up to \<open>n\<close> that have a proper divisor in \<open>{2..p - 1}\<close>.
\<close>

definition barres_avant :: "int \<Rightarrow> int \<Rightarrow> int set" where
  "barres_avant n p = {m. m \<le> n \<and> (\<exists>d. 2 \<le> d \<and> d < p \<and> d < m \<and> d dvd m)}"

section \<open>Evaluation\<close>

text \<open>The recursion equations of the loops are the equations concrete calls are evaluated with.\<close>

declare mon_divmod_loop.simps [code]
declare eratosthene_barre.simps [code]
declare eratosthene_crible.simps [code]
declare factorise_loop.simps [code]
declare expo_mod_rapide_loop.simps [code]

section \<open>Properties of \<open>pgcd\<close> and \<open>euclide_etendu\<close>\<close>

declare pgcd_loop.simps [simp del] euclide_loop.simps [simp del]

lemma pgcd_loop_0: "pgcd_loop a1 0 = a1"
  by (subst pgcd_loop.simps) simp

lemma pgcd_loop_step: "b1 \<noteq> 0 \<Longrightarrow> pgcd_loop a1 b1 = pgcd_loop b1 (a1 mod b1)"
  by (subst pgcd_loop.simps) simp

lemma euclide_loop_0: "euclide_loop r0 0 u0 u1 v0 v1 = (r0, u0, v0)"
  by (subst euclide_loop.simps) simp

lemma euclide_loop_step:
  "r1 \<noteq> 0 \<Longrightarrow>
   euclide_loop r0 r1 u0 u1 v0 v1 =
   euclide_loop r1 (r0 mod r1) u1 (u0 - r0 div r1 * u1) v1 (v0 - r0 div r1 * v1)"
  by (subst euclide_loop.simps) (simp add: Let_def)

lemma gcd_mod_step: "gcd b1 (a1 mod b1) = gcd a1 (b1 :: int)"
  by (metis gcd.commute gcd_red_int)

lemma pgcd_loop_gcd: "\<bar>pgcd_loop a1 b1\<bar> = gcd a1 b1"
proof (induction a1 b1 rule: pgcd_loop.induct)
  case (1 a1 b1)
  show ?case
  proof (cases "b1 = 0")
    case True
    then show ?thesis by (simp add: pgcd_loop_0)
  next
    case False
    with "1" show ?thesis by (simp add: pgcd_loop_step gcd_mod_step)
  qed
qed

lemma pgcd_gcd: "pgcd a b = gcd a b"
  by (simp add: pgcd_def pgcd_loop_gcd)

lemma euclide_loop_gcd: "\<bar>fst (euclide_loop r0 r1 u0 u1 v0 v1)\<bar> = gcd r0 r1"
proof (induction r0 r1 u0 u1 v0 v1 rule: euclide_loop.induct)
  case (1 r0 r1 u0 u1 v0 v1)
  show ?case
  proof (cases "r1 = 0")
    case True
    then show ?thesis by (simp add: euclide_loop_0)
  next
    case False
    with "1" show ?thesis
      by (simp add: euclide_loop_step gcd_mod_step)
  qed
qed

lemma euclide_loop_bezout:
  assumes "a * u0 + b * v0 = r0" and "a * u1 + b * v1 = r1"
    and "euclide_loop r0 r1 u0 u1 v0 v1 = (d, u, v)"
  shows "a * u + b * v = d"
  using assms
proof (induction r0 r1 u0 u1 v0 v1 rule: euclide_loop.induct)
  case (1 r0 r1 u0 u1 v0 v1)
  show ?case
  proof (cases "r1 = 0")
    case True
    with "1.prems" show ?thesis by (simp add: euclide_loop_0)
  next
    case False
    define q where "q = r0 div r1"
    have step: "a * (u0 - q * u1) + b * (v0 - q * v1) = r0 mod r1"
    proof -
      have "a * (u0 - q * u1) + b * (v0 - q * v1) = (a * u0 + b * v0) - q * (a * u1 + b * v1)"
        by (simp add: algebra_simps)
      also have "\<dots> = r0 - q * r1"
        using "1.prems" by simp
      also have "\<dots> = r0 mod r1"
        by (simp add: q_def minus_div_mult_eq_mod)
      finally show ?thesis .
    qed
    have run: "euclide_loop r1 (r0 mod r1) u1 (u0 - q * u1) v1 (v0 - q * v1) = (d, u, v)"
      using "1.prems"(3) False by (simp add: euclide_loop_step q_def)
    show ?thesis
      using "1.IH" [OF False q_def refl "1.prems"(2) step run] .
  qed
qed

lemma euclide_etendu_spec:
  "case euclide_etendu a b of (d, u, v) \<Rightarrow> d = gcd a b \<and> d = a * u + b * v"
proof -
  obtain r0 u0 v0 where run: "euclide_loop a b 1 0 0 1 = (r0, u0, v0)"
    by (cases "euclide_loop a b 1 0 0 1") auto
  have bez: "a * u0 + b * v0 = r0"
    by (rule euclide_loop_bezout [OF _ _ run]) simp_all
  have g: "\<bar>r0\<bar> = gcd a b"
    using euclide_loop_gcd [of a b 1 0 0 1] run by simp
  show ?thesis
    using bez g by (auto simp: euclide_etendu_def run)
qed

text \<open>
  Claim C1. For every pair of integers \<open>(a, b) \<noteq> (0, 0)\<close>, negative operands included,
  \<open>euclide_etendu a b\<close> is a triple \<open>(d, u, v)\<close> with \<open>d = pgcd a b\<close>,
  \<open>d = a * u + b * v\<close> and \<open>d \<ge> 0\<close>.
\<close>

theorem euclide_etendu_bezout:
  assumes "(a, b) \<noteq> (0, 0)"
  shows "case euclide_etendu a b of (d, u, v) \<Rightarrow> d = pgcd a b \<and> d = a * u + b * v \<and> d \<ge> 0"
proof -
  obtain d u v where e: "euclide_etendu a b = (d, u, v)"
    by (cases "euclide_etendu a b") auto
  from euclide_etendu_spec [of a b] have d: "d = gcd a b" and bez: "d = a * u + b * v"
    by (simp_all add: e)
  from d have "0 \<le> d" by simp
  with d bez show ?thesis
    unfolding e pgcd_gcd by simp
qed

theorem euclide_etendu_bezout_witness:
  "((-42, 26) :: int \<times> int) \<noteq> (0, 0) \<and>
   (case euclide_etendu (-42) 26 of (d, u, v) \<Rightarrow>
      d = pgcd (-42) 26 \<and> d = (-42) * u + 26 * v \<and> d \<ge> 0)"
  using euclide_etendu_bezout [of "-42" 26] by simp

section \<open>Properties of \<open>mon_divmod\<close>\<close>

lemma mon_divmod_loop_exit: "r < b \<Longrightarrow> mon_divmod_loop b q r = Some (q, r)"
  by (subst mon_divmod_loop.simps) simp

lemma mon_divmod_loop_step: "b \<le> r \<Longrightarrow> mon_divmod_loop b q r = mon_divmod_loop b (q + 1) (r - b)"
  by (subst mon_divmod_loop.simps) simp


lemma mon_divmod_loop_div_mod:
  assumes "0 < b" and "0 \<le> r"
  shows "mon_divmod_loop b q r = Some (q + r div b, r mod b)"
  using assms
proof (induction "nat r" arbitrary: q r rule: less_induct)
  case less
  show ?case
  proof (cases "b \<le> r")
    case True
    have "mon_divmod_loop b (q + 1) (r - b) = Some (q + 1 + (r - b) div b, (r - b) mod b)"
      using less.prems True by (intro less.hyps) auto
    moreover have "(r - b) div b = r div b - 1"
      using div_mult_self1 [of b r "- 1"] less.prems(1) by simp
    ultimately show ?thesis
      using True by (simp add: mon_divmod_loop_step)
  next
    case False
    with less.prems show ?thesis
      by (simp add: mon_divmod_loop_exit div_pos_pos_trivial mod_pos_pos_trivial)
  qed
qed

section \<open>Properties of \<open>inverse_mod\<close>\<close>

lemma inverse_mod_congruent:
  assumes "1 = a * u + n * v"
  shows "(a * (u mod n)) mod n = 1 mod (n :: int)"
proof -
  have "(a * (u mod n)) mod n = (a * u) mod n"
    by (simp add: mod_mult_right_eq)
  also have "a * u = 1 - n * v"
    using assms by simp
  also have "(1 - n * v) mod n = 1 mod n"
    by (metis mod_diff_right_eq mod_mult_self1_is_0 diff_zero)
  finally show ?thesis .
qed

text \<open>
  Claim C4, as the code has it. For \<open>n \<noteq> 0\<close>: if \<open>gcd a n = 1\<close> then
  \<open>inverse_mod a n\<close> returns \<open>u\<close> with \<open>(a * u) mod n = 1 mod n\<close>, and \<open>u\<close> has the
  sign of \<open>n\<close>: \<open>0 \<le> u < n\<close> for a positive \<open>n\<close>, \<open>n < u \<le> 0\<close> for a negative one;
  if \<open>gcd a n \<noteq> 1\<close> the second assertion fails.
\<close>

theorem inverse_mod_spec:
  assumes "n \<noteq> 0"
  shows "(gcd a n = 1 \<longrightarrow>
            (\<exists>u. inverse_mod a n = Return u \<and> (a * u) mod n = 1 mod n \<and>
                 (if 0 < n then 0 \<le> u \<and> u < n else n < u \<and> u \<le> 0))) \<and>
         (gcd a n \<noteq> 1 \<longrightarrow> inverse_mod a n = Raise AssertionError_non_inversible)"
proof -
  obtain d u v where e: "euclide_etendu a n = (d, u, v)"
    by (cases "euclide_etendu a n") auto
  from euclide_etendu_spec [of a n] have d: "d = gcd a n" and bez: "d = a * u + n * v"
    by (simp_all add: e)
  show ?thesis
  proof (cases "gcd a n = 1")
    case True
    with d bez have one: "1 = a * u + n * v" by simp
    have run: "inverse_mod a n = Return (u mod n)"
      using assms d True by (simp add: inverse_mod_def e)
    have range: "if 0 < n then 0 \<le> u mod n \<and> u mod n < n else n < u mod n \<and> u mod n \<le> 0"
      using assms by (simp add: neg_mod_bound neg_mod_sign)
    from True run inverse_mod_congruent [OF one] range show ?thesis by simp
  next
    case False
    with assms d show ?thesis by (simp add: inverse_mod_def e)
  qed
qed

theorem inverse_mod_spec_witness:
  "(7 :: int) \<noteq> 0 \<and> gcd (3 :: int) 7 = 1 \<and> inverse_mod 3 7 = Return 5 \<and>
   (-7 :: int) \<noteq> 0 \<and> gcd (3 :: int) (-7) = 1 \<and> inverse_mod 3 (-7) = Return (-2) \<and>
   (26 :: int) \<noteq> 0 \<and> gcd (4 :: int) 26 \<noteq> 1 \<and>
   inverse_mod 4 26 = Raise AssertionError_non_inversible"
proof -
  have g: "gcd (3 :: int) 7 = 1" "gcd (3 :: int) (-7) = 1" "gcd (4 :: int) 26 \<noteq> 1"
    by code_simp+
  have r: "inverse_mod 3 7 = Return 5" "inverse_mod 3 (-7) = Return (-2)"
    by code_simp+
  from inverse_mod_spec [of 26 4] g(3)
  have "inverse_mod 4 26 = Raise AssertionError_non_inversible" by simp
  with g r show ?thesis by simp
qed

text \<open>
  The claim as stated fails for a negative modulus: \<open>3\<close> is invertible modulo \<open>-7\<close>
  and the call returns \<open>-2\<close>, which is not in \<open>[0, 7)\<close>.
\<close>

theorem inverse_mod_range_counterexample:
  "(-7 :: int) \<noteq> 0 \<and> gcd (3 :: int) (-7) = 1 \<and> inverse_mod 3 (-7) = Return (-2) \<and>
   \<not> (0 \<le> (-2 :: int) \<and> (-2 :: int) < \<bar>-7\<bar>)"
proof -
  have "gcd (3 :: int) (-7) = 1" by code_simp
  moreover have "inverse_mod 3 (-7) = Return (-2)" by code_simp
  ultimately show ?thesis by simp
qed

section \<open>Properties of \<open>resoud_equation\<close>\<close>

lemma resoud_equation_None:
  assumes "(a, b) \<noteq> (0, 0)" and "\<not> gcd a b dvd c"
  shows "resoud_equation a b c = Return None"
proof -
  have "gcd a b \<noteq> 0" using assms(1) by simp
  moreover have "c mod gcd a b \<noteq> 0" using assms(2) by (simp add: dvd_eq_mod_eq_0)
  ultimately show ?thesis
    by (simp add: resoud_equation_def pgcd_gcd Let_def)
qed

lemma resoud_equation_Some:
  assumes "(a, b) \<noteq> (0, 0)" and "gcd a b dvd c"
  shows "\<exists>u v. 1 = (a div gcd a b) * u + (b div gcd a b) * v \<and>
           resoud_equation a b c =
             Return (Some ((c div gcd a b * u, c div gcd a b * v), (- (b div gcd a b), a div gcd a b)))"
proof -
  define d where "d = gcd a b"
  have d0: "d \<noteq> 0" using assms(1) by (simp add: d_def)
  have r0: "c mod d = 0" using assms(2) by (simp add: d_def)
  obtain d' u v where e: "euclide_etendu (a div d) (b div d) = (d', u, v)"
    by (cases "euclide_etendu (a div d) (b div d)") auto
  have cop: "gcd (a div d) (b div d) = 1"
    unfolding d_def using assms(1) by (intro div_gcd_coprime [unfolded coprime_iff_gcd_eq_1]) auto
  from euclide_etendu_spec [of "a div d" "b div d"]
  have "d' = gcd (a div d) (b div d)" and bez: "d' = (a div d) * u + (b div d) * v"
    by (simp_all add: e)
  with cop have one: "1 = (a div d) * u + (b div d) * v" by simp
  have "resoud_equation a b c = Return (Some ((c div d * u, c div d * v), (- (b div d), a div d)))"
    using d0 r0 by (simp add: resoud_equation_def pgcd_gcd Let_def d_def [symmetric] e)
  with one show ?thesis unfolding d_def by blast
qed

lemma diophantine_sound:
  fixes a b c d a1 b1 c1 u v k :: int
  assumes "a = a1 * d" "b = b1 * d" "c = c1 * d" "1 = a1 * u + b1 * v"
  shows "a * (c1 * u + (- b1) * k) + b * (c1 * v + a1 * k) = c"
proof -
  have "a * (c1 * u + (- b1) * k) + b * (c1 * v + a1 * k) = d * c1 * (a1 * u + b1 * v)"
    unfolding assms(1,2) by (simp add: algebra_simps)
  also have "\<dots> = c" using assms(3,4) by (simp add: algebra_simps)
  finally show ?thesis .
qed

lemma diophantine_complete:
  fixes a1 b1 x0 y0 x y :: int
  assumes cop: "coprime a1 b1" and eq: "a1 * x + b1 * y = a1 * x0 + b1 * y0"
  shows "\<exists>k. x = x0 + (- b1) * k \<and> y = y0 + a1 * k"
proof -
  have h: "a1 * (x - x0) = b1 * (y0 - y)"
    using eq by (simp add: algebra_simps)
  show ?thesis
  proof (cases "a1 = 0")
    case True
    with cop have b1: "is_unit b1" by simp
    then have b1sq: "b1 * b1 = 1"
      by (auto simp: zmult_eq_1_iff dest: zdvd1_eq [THEN iffD1])
    from h True have "b1 * (y0 - y) = 0" by simp
    moreover from b1 have "b1 \<noteq> 0" by auto
    ultimately have y: "y = y0" by simp
    have "x = x0 + (- b1) * (b1 * (x0 - x))"
    proof -
      have "(- b1) * (b1 * (x0 - x)) = (b1 * b1) * (x - x0)" by (simp add: algebra_simps)
      then show ?thesis by (simp add: b1sq)
    qed
    with y True show ?thesis by (intro exI [of _ "b1 * (x0 - x)"]) simp
  next
    case False
    have "a1 dvd b1 * (y0 - y)" using h by (metis dvd_triv_left)
    with cop have "a1 dvd (y0 - y)" by (simp add: coprime_dvd_mult_right_iff)
    then obtain t where t: "y0 - y = a1 * t" by (auto simp: dvd_def)
    with h have "a1 * (x - x0) = a1 * (b1 * t)" by (simp add: algebra_simps)
    with False have "x - x0 = b1 * t" by simp
    with t show ?thesis by (intro exI [of _ "- t"]) (simp add: algebra_simps)
  qed
qed

text \<open>
  Claim C5. For \<open>(a, b) \<noteq> (0, 0)\<close> and every \<open>c\<close>: if \<open>gcd a b\<close> does not divide \<open>c\<close>,
  \<open>resoud_equation a b c\<close> returns the empty tuple, without raising; otherwise it returns
  \<open>((x0, y0), (alpha, beta))\<close> such that \<open>(x0 + alpha * k, y0 + beta * k)\<close> solves
  \<open>a * x + b * y = c\<close> for every integer \<open>k\<close>, and every integer solution has this form.
\<close>

theorem resoud_equation_spec:
  assumes "(a, b) \<noteq> (0, 0)"
  shows "(\<not> gcd a b dvd c \<longrightarrow> resoud_equation a b c = Return None) \<and>
         (gcd a b dvd c \<longrightarrow>
            (\<exists>x0 y0 alpha beta.
               resoud_equation a b c = Return (Some ((x0, y0), (alpha, beta))) \<and>
               (\<forall>k. a * (x0 + alpha * k) + b * (y0 + beta * k) = c) \<and>
               (\<forall>x y. a * x + b * y = c \<longrightarrow> (\<exists>k. x = x0 + alpha * k \<and> y = y0 + beta * k))))"
proof (intro conjI impI)
  assume "\<not> gcd a b dvd c"
  with assms show "resoud_equation a b c = Return None"
    by (rule resoud_equation_None)
next
  assume dvd: "gcd a b dvd c"
  define d where "d = gcd a b"
  define a1 where "a1 = a div d"
  define b1 where "b1 = b div d"
  define c1 where "c1 = c div d"
  have d0: "d \<noteq> 0" using assms by (simp add: d_def)
  have a: "a = a1 * d" and b: "b = b1 * d" and c: "c = c1 * d"
    using dvd by (simp_all add: a1_def b1_def c1_def d_def)
  from resoud_equation_Some [OF assms dvd]
  obtain u v where one: "1 = a1 * u + b1 * v"
    and run: "resoud_equation a b c = Return (Some ((c1 * u, c1 * v), (- b1, a1)))"
    unfolding a1_def b1_def c1_def d_def by blast
  have cop: "coprime a1 b1"
    unfolding a1_def b1_def d_def using assms by (intro div_gcd_coprime) auto
  have sound: "\<forall>k. a * (c1 * u + (- b1) * k) + b * (c1 * v + a1 * k) = c"
    using diophantine_sound [OF a b c one] by blast
  have complete: "\<forall>x y. a * x + b * y = c \<longrightarrow> (\<exists>k. x = c1 * u + (- b1) * k \<and> y = c1 * v + a1 * k)"
  proof (intro allI impI)
    fix x y
    assume sol: "a * x + b * y = c"
    from sound have "a * (c1 * u) + b * (c1 * v) = c"
      using diophantine_sound [OF a b c one, of 0] by simp
    with sol have "d * (a1 * x + b1 * y) = d * (a1 * (c1 * u) + b1 * (c1 * v))"
      unfolding a b by (simp add: algebra_simps)
    with d0 have "a1 * x + b1 * y = a1 * (c1 * u) + b1 * (c1 * v)" by simp
    from diophantine_complete [OF cop this]
    show "\<exists>k. x = c1 * u + (- b1) * k \<and> y = c1 * v + a1 * k" .
  qed
  from run sound complete
  show "\<exists>x0 y0 alpha beta.
          resoud_equation a b c = Return (Some ((x0, y0), (alpha, beta))) \<and>
          (\<forall>k. a * (x0 + alpha * k) + b * (y0 + beta * k) = c) \<and>
          (\<forall>x y. a * x + b * y = c \<longrightarrow> (\<exists>k. x = x0 + alpha * k \<and> y = y0 + beta * k))"
    by blast
qed

theorem resoud_equation_spec_witness:
  "((4, 6) :: int \<times> int) \<noteq> (0, 0) \<and> \<not> gcd (4 :: int) 6 dvd 5 \<and>
   resoud_equation 4 6 5 = Return None \<and> gcd (4 :: int) 6 dvd 10 \<and>
   (\<exists>x0 y0 alpha beta.
      resoud_equation 4 6 10 = Return (Some ((x0, y0), (alpha, beta))) \<and>
      (\<forall>k. 4 * (x0 + alpha * k) + 6 * (y0 + beta * k) = 10))"
proof -
  have ne: "((4, 6) :: int \<times> int) \<noteq> (0, 0)" by simp
  have g: "gcd (4 :: int) 6 = 2" by code_simp
  have nd: "\<not> gcd (4 :: int) 6 dvd 5" and dv: "gcd (4 :: int) 6 dvd 10"
    unfolding g by simp_all
  from resoud_equation_spec [OF ne, of 5] nd
  have n: "resoud_equation 4 6 5 = Return None" by blast
  from resoud_equation_spec [OF ne, of 10] dv
  have "\<exists>x0 y0 alpha beta.
      resoud_equation 4 6 10 = Return (Some ((x0, y0), (alpha, beta))) \<and>
      (\<forall>k. 4 * (x0 + alpha * k) + 6 * (y0 + beta * k) = 10)" by blast
  with ne nd dv n show ?thesis by blast
qed

section \<open>Properties of \<open>expo_mod_rapide\<close>\<close>

lemma expo_mod_rapide_loop_0: "expo_mod_rapide_loop n r s 0 = Some (Return r)"
  by (subst expo_mod_rapide_loop.simps) simp

lemma expo_mod_rapide_loop_step:
  "k \<noteq> 0 \<Longrightarrow> n \<noteq> 0 \<Longrightarrow>
   expo_mod_rapide_loop n r s k =
   expo_mod_rapide_loop n (if k mod 2 = 1 then (r * s) mod n else r) ((s * s) mod n) (k div 2)"
  by (subst expo_mod_rapide_loop.simps) simp

lemma power_halve:
  fixes s :: int and k :: int
  assumes "0 \<le> k"
  shows "s ^ nat k = (if k mod 2 = 1 then s else 1) * (s * s) ^ nat (k div 2)"
proof -
  have k: "nat k = 2 * nat (k div 2) + nat (k mod 2)"
  proof -
    have "0 \<le> k div 2" "0 \<le> k mod 2" using assms by simp_all
    then have "int (2 * nat (k div 2) + nat (k mod 2)) = 2 * (k div 2) + k mod 2"
      by simp
    also have "\<dots> = k" by simp
    finally show ?thesis by (metis nat_int)
  qed
  have "s ^ nat k = s ^ nat (k mod 2) * (s ^ 2) ^ nat (k div 2)"
    by (subst k) (simp add: power_add power_mult)
  moreover have "s ^ nat (k mod 2) = (if k mod 2 = 1 then s else 1)"
  proof (cases "k mod 2 = 1")
    case True
    then show ?thesis by simp
  next
    case False
    then have "k mod 2 = 0" by presburger
    then show ?thesis by simp
  qed
  ultimately show ?thesis by (simp add: power2_eq_square)
qed

lemma expo_mod_rapide_loop_spec:
  assumes "0 \<le> k" and "0 < n"
  shows "\<exists>r'. expo_mod_rapide_loop n r s k = Some (Return r') \<and>
              r' mod n = (r * s ^ nat k) mod n \<and>
              (0 < k \<longrightarrow> r' = (r * s ^ nat k) mod n)"
  using assms
proof (induction "nat k" arbitrary: k r s rule: less_induct)
  case less
  show ?case
  proof (cases "k = 0")
    case True
    then show ?thesis by (simp add: expo_mod_rapide_loop_0)
  next
    case False
    with less.prems have kpos: "0 < k" by simp
    define r1 where "r1 = (if k mod 2 = 1 then (r * s) mod n else r)"
    define s1 where "s1 = (s * s) mod n"
    have n0: "n \<noteq> 0" using less.prems by simp
    have step: "expo_mod_rapide_loop n r s k = expo_mod_rapide_loop n r1 s1 (k div 2)"
      using False n0 by (simp add: expo_mod_rapide_loop_step r1_def s1_def)
    have smaller: "nat (k div 2) < nat k" using kpos by simp
    have half: "0 \<le> k div 2" using kpos by simp
    from less.hyps [OF smaller half less.prems(2), of r1 s1]
    obtain r' where run: "expo_mod_rapide_loop n r1 s1 (k div 2) = Some (Return r')"
      and cong: "r' mod n = (r1 * s1 ^ nat (k div 2)) mod n"
      and exact: "0 < k div 2 \<longrightarrow> r' = (r1 * s1 ^ nat (k div 2)) mod n"
      by blast
    have inv: "(r1 * s1 ^ nat (k div 2)) mod n = (r * s ^ nat k) mod n"
    proof -
      have "(r1 * s1 ^ nat (k div 2)) mod n = (r1 mod n * (s1 ^ nat (k div 2) mod n)) mod n"
        by (simp add: mod_mult_eq)
      also have "s1 ^ nat (k div 2) mod n = (s * s) ^ nat (k div 2) mod n"
        by (simp add: s1_def power_mod)
      also have "r1 mod n = (r * (if k mod 2 = 1 then s else 1)) mod n"
        by (simp add: r1_def)
      also have "((r * (if k mod 2 = 1 then s else 1)) mod n * ((s * s) ^ nat (k div 2) mod n)) mod n
                 = (r * (if k mod 2 = 1 then s else 1) * (s * s) ^ nat (k div 2)) mod n"
        by (simp add: mod_mult_eq)
      also have "r * (if k mod 2 = 1 then s else 1) * (s * s) ^ nat (k div 2) = r * s ^ nat k"
        using power_halve [OF less.prems(1), of s] by (simp add: mult.assoc)
      finally show ?thesis .
    qed
    have r'_exact: "r' = (r * s ^ nat k) mod n"
    proof (cases "0 < k div 2")
      case True
      with exact inv show ?thesis by simp
    next
      case False
      with half have h0: "k div 2 = 0" by simp
      with kpos have k1: "k = 1" by presburger
      from run h0 have "r' = r1" by (simp add: expo_mod_rapide_loop_0)
      then show ?thesis using k1 by (simp add: r1_def)
    qed
    from step run r'_exact show ?thesis by simp
  qed
qed

text \<open>
  Claim C3, as the code has it. For every integer \<open>a\<close>, every \<open>b \<ge> 0\<close> and every
  \<open>n > 0\<close>, \<open>expo_mod_rapide a b n\<close> returns a value congruent to \<open>a ^ b\<close> modulo \<open>n\<close>,
  and this value is \<open>(a ^ b) mod n\<close> itself whenever \<open>b \<ge> 1\<close> or \<open>n \<ge> 2\<close>.
\<close>

theorem expo_mod_rapide_spec:
  assumes "0 \<le> b" and "0 < n"
  shows "\<exists>r. expo_mod_rapide a b n = Some (Return r) \<and>
             r mod n = a ^ nat b mod n \<and>
             (0 < b \<or> 1 < n \<longrightarrow> r = a ^ nat b mod n)"
proof -
  from expo_mod_rapide_loop_spec [OF assms, of 1 a]
  obtain r where run: "expo_mod_rapide_loop n 1 a b = Some (Return r)"
    and cong: "r mod n = a ^ nat b mod n"
    and exact: "0 < b \<longrightarrow> r = a ^ nat b mod n"
    by auto
  have "r = a ^ nat b mod n" if "\<not> 0 < b" and "1 < n"
  proof -
    from that(1) assms(1) have b0: "b = 0" by simp
    with run have "r = 1" by (simp add: expo_mod_rapide_loop_0)
    with b0 that(2) show ?thesis by simp
  qed
  with run cong exact show ?thesis
    unfolding expo_mod_rapide_def by blast
qed

theorem expo_mod_rapide_spec_witness:
  "(0 :: int) \<le> 10 \<and> (0 :: int) < 100 \<and> expo_mod_rapide 2 10 100 = Some (Return 24) \<and>
   (2 :: int) ^ nat 10 mod 100 = 24"
proof -
  have p: "(2 :: int) ^ nat 10 mod 100 = 24" by simp
  from expo_mod_rapide_spec [of 10 100 2]
  obtain r where "expo_mod_rapide 2 10 100 = Some (Return r)"
    and "0 < (10 :: int) \<or> 1 < (100 :: int) \<longrightarrow> r = 2 ^ nat 10 mod 100"
    by auto
  then have "expo_mod_rapide 2 10 100 = Some (Return 24)" by (simp only: p) simp
  with p show ?thesis by simp
qed

text \<open>
  The claim as stated fails at \<open>b = 0\<close>, \<open>n = 1\<close>: the loop is not entered and the
  initial \<open>r = 1\<close> is returned, whereas \<open>(a ^ 0) mod 1 = 0\<close>.
\<close>

theorem expo_mod_rapide_counterexample:
  "expo_mod_rapide 5 0 1 = Some (Return 1) \<and> (5 :: int) ^ nat 0 mod 1 = 0 \<and>
   expo_mod_rapide 5 0 1 \<noteq> Some (Return ((5 :: int) ^ nat 0 mod 1))"
  by (simp add: expo_mod_rapide_def expo_mod_rapide_loop_0)

section \<open>Calls outside the conditions of use: the Euclidean functions\<close>






section \<open>Properties of \<open>factorise\<close>\<close>

lemma factorise_loop_1:
  "factorise_loop 1 facteurs p alpha =
   Some (if alpha \<noteq> 0 then facteurs @ [(p, alpha)] else facteurs)"
  by (subst factorise_loop.simps) simp

lemma factorise_loop_div:
  "m \<noteq> 1 \<Longrightarrow> m mod p = 0 \<Longrightarrow>
   factorise_loop m facteurs p alpha = factorise_loop (m div p) facteurs p (alpha + 1)"
  by (subst factorise_loop.simps) simp

lemma factorise_loop_next:
  "m \<noteq> 1 \<Longrightarrow> m mod p \<noteq> 0 \<Longrightarrow>
   factorise_loop m facteurs p alpha =
   factorise_loop m (if alpha \<noteq> 0 then facteurs @ [(p, alpha)] else facteurs) (p + 1) 0"
  by (subst factorise_loop.simps) simp

lemma premier_iff:
  "premier k \<longleftrightarrow> 2 \<le> k \<and> (\<forall>d. 0 < d \<and> d dvd k \<longrightarrow> d = 1 \<or> d = k)"
proof
  assume p: "premier k"
  then have k: "2 \<le> k" and nd: "\<And>d. 2 \<le> d \<Longrightarrow> d \<le> k - 1 \<Longrightarrow> \<not> d dvd k"
    by (auto simp: premier_def)
  have "d = 1 \<or> d = k" if "0 < d \<and> d dvd k" for d
  proof -
    from that k have "d \<le> k" by (intro zdvd_imp_le) auto
    with that nd [of d] show ?thesis by force
  qed
  with k show "2 \<le> k \<and> (\<forall>d. 0 < d \<and> d dvd k \<longrightarrow> d = 1 \<or> d = k)" by blast
next
  assume "2 \<le> k \<and> (\<forall>d. 0 < d \<and> d dvd k \<longrightarrow> d = 1 \<or> d = k)"
  then show "premier k" by (force simp: premier_def)
qed

lemma facteurs_ok_snoc:
  assumes "facteurs_ok fs" and "premier p" and "1 \<le> alpha" and "\<forall>(q, e) \<in> set fs. q < p"
  shows "facteurs_ok (fs @ [(p, alpha)])"
  using assms by (auto simp: facteurs_ok_def sorted_wrt_append)

lemma produit_snoc: "produit (fs @ [(p, alpha)]) = produit fs * p ^ nat alpha"
  by (simp add: produit_def)

lemma factorise_loop_spec:
  assumes "1 \<le> m" and "2 \<le> p" and "0 \<le> alpha"
    and "\<forall>d. 1 < d \<and> d < p \<longrightarrow> \<not> d dvd m"
    and "0 < alpha \<longrightarrow> premier p"
    and "facteurs_ok fs" and "\<forall>(q, e) \<in> set fs. q < p"
  shows "\<exists>res. factorise_loop m fs p alpha = Some res \<and> facteurs_ok res \<and>
               produit res = produit fs * p ^ nat alpha * m"
  using assms
proof (induction "nat (2 * m - p)" arbitrary: m fs p alpha rule: less_induct)
  case less
  define fs' where "fs' = (if alpha \<noteq> 0 then fs @ [(p, alpha)] else fs)"
  have fs'_ok: "facteurs_ok fs'"
    using less.prems by (auto simp: fs'_def intro!: facteurs_ok_snoc)
  have fs'_prod: "produit fs' = produit fs * p ^ nat alpha"
    by (simp add: fs'_def produit_snoc)
  have fs'_lt: "\<forall>(q, e) \<in> set fs'. q < p + 1"
    using less.prems(7) by (auto simp: fs'_def)
  show ?case
  proof (cases "m = 1")
    case True
    have "factorise_loop m fs p alpha = Some fs'"
      unfolding True fs'_def by (rule factorise_loop_1)
    with fs'_ok fs'_prod True show ?thesis by simp
  next
    case False
    with less.prems(1) have m2: "2 \<le> m" by simp
    have p_le_m: "p \<le> m"
    proof (rule ccontr)
      assume "\<not> p \<le> m"
      with m2 have "1 < m \<and> m < p" by simp
      with less.prems(4) have "\<not> m dvd m" by blast
      then show False by simp
    qed
    show ?thesis
    proof (cases "m mod p = 0")
      case True
      then have pdvd: "p dvd m" by (simp add: dvd_eq_mod_eq_0)
      define m' where "m' = m div p"
      have m_eq: "m = p * m'" using pdvd by (simp add: m'_def)
      have m'1: "1 \<le> m'"
      proof -
        have "0 < m'" using m2 less.prems(2) m_eq
          by (metis less_le_trans mult_pos_pos not_less zero_less_mult_pos zero_less_numeral less.prems(1) zero_less_one)
        then show ?thesis by simp
      qed
      have m'_lt: "m' < m"
      proof -
        have "1 * m' < p * m'" using less.prems(2) m'1 by (intro mult_strict_right_mono) auto
        then show ?thesis using m_eq by simp
      qed
      have nodiv: "\<forall>d. 1 < d \<and> d < p \<longrightarrow> \<not> d dvd m'"
        using less.prems(4) m_eq by (metis dvd_mult)
      have prem: "0 < alpha + 1 \<longrightarrow> premier p"
      proof
        show "premier p"
          unfolding premier_def
        proof (intro conjI ballI)
          show "2 \<le> p" by (rule less.prems(2))
        next
          fix d assume "d \<in> {2..p - 1}"
          then have "1 < d \<and> d < p" by auto
          with less.prems(4) have "\<not> d dvd m" by blast
          with pdvd show "\<not> d dvd p" by (metis dvd_trans)
        qed
      qed
      have meas: "nat (2 * m' - p) < nat (2 * m - p)"
        using m'_lt p_le_m m2 by simp
      have a0: "0 \<le> alpha + 1" using less.prems(3) by simp
      from less.hyps [OF meas m'1 less.prems(2) a0 nodiv prem less.prems(6) less.prems(7)]
      obtain res where run: "factorise_loop m' fs p (alpha + 1) = Some res"
        and ok: "facteurs_ok res"
        and pr: "produit res = produit fs * p ^ nat (alpha + 1) * m'"
        by blast
      have "p ^ nat (alpha + 1) = p ^ nat alpha * p"
        using less.prems(3) by (simp add: nat_add_distrib)
      with pr m_eq have "produit res = produit fs * p ^ nat alpha * m"
        by (simp add: algebra_simps)
      moreover have "factorise_loop m fs p alpha = Some res"
        using run False True by (simp add: factorise_loop_div m'_def)
      ultimately show ?thesis using ok by blast
    next
      case False
      note ndvd = this
      then have pndvd: "\<not> p dvd m" by (simp add: dvd_eq_mod_eq_0)
      have "p \<noteq> m" using pndvd by auto
      with p_le_m have p_lt: "p < m" by simp
      have nodiv: "\<forall>d. 1 < d \<and> d < p + 1 \<longrightarrow> \<not> d dvd m"
      proof (intro allI impI)
        fix d assume d: "1 < d \<and> d < p + 1"
        show "\<not> d dvd m"
        proof (cases "d = p")
          case True
          with pndvd show ?thesis by simp
        next
          case False
          with d have "1 < d \<and> d < p" by simp
          with less.prems(4) show ?thesis by blast
        qed
      qed
      have meas: "nat (2 * m - (p + 1)) < nat (2 * m - p)"
        using p_lt m2 by simp
      have p2: "2 \<le> p + 1" using less.prems(2) by simp
      have prem: "0 < (0 :: int) \<longrightarrow> premier (p + 1)" by simp
      from less.hyps [OF meas less.prems(1) p2 order_refl nodiv prem fs'_ok fs'_lt]
      obtain res where run: "factorise_loop m fs' (p + 1) 0 = Some res"
        and ok: "facteurs_ok res"
        and pr: "produit res = produit fs' * (p + 1) ^ nat 0 * m"
        by blast
      have "factorise_loop m fs p alpha = Some res"
        using run \<open>m \<noteq> 1\<close> ndvd by (simp add: factorise_loop_next fs'_def)
      moreover have "produit res = produit fs * p ^ nat alpha * m"
        using pr fs'_prod by simp
      ultimately show ?thesis using ok by blast
    qed
  qed
qed

lemma factorise_returns:
  assumes "1 \<le> n"
  shows "\<exists>fs. factorise n = Some fs \<and> facteurs_ok fs \<and> produit fs = n"
proof -
  have "\<exists>res. factorise_loop n [] 2 0 = Some res \<and> facteurs_ok res \<and>
          produit res = produit [] * 2 ^ nat 0 * n"
    by (rule factorise_loop_spec) (use assms in \<open>auto simp: facteurs_ok_def\<close>)
  then show ?thesis by (simp add: factorise_def produit_def)
qed

text \<open>
  Claim C7. For every \<open>n \<ge> 1\<close>, \<open>factorise n\<close> returns a list of pairs \<open>(p, alpha)\<close> in
  which every \<open>p\<close> is prime, the primes are strictly ascending, every exponent is at least
  1, and the product of the \<open>p ^ alpha\<close> is \<open>n\<close>; and \<open>factorise 1\<close> is the empty list.
\<close>

theorem factorise_spec:
  assumes "1 \<le> n"
  shows "\<exists>fs. factorise n = Some fs \<and>
              (\<forall>(p, alpha) \<in> set fs. premier p \<and> 1 \<le> alpha) \<and>
              sorted_wrt (<) (map fst fs) \<and>
              prod_list (map (\<lambda>(p, alpha). p ^ nat alpha) fs) = n \<and>
              (n = 1 \<longrightarrow> fs = [])"
proof -
  from factorise_returns [OF assms]
  obtain fs where run: "factorise n = Some fs" and ok: "facteurs_ok fs" and pr: "produit fs = n"
    by blast
  have "fs = []" if "n = 1"
    using run that by (simp add: factorise_def factorise_loop_1)
  with run ok pr show ?thesis
    unfolding facteurs_ok_def produit_def by blast
qed

theorem factorise_spec_witness:
  "(1 :: int) \<le> 504 \<and> factorise 504 = Some [(2, 3), (3, 2), (7, 1)] \<and>
   premier 2 \<and> premier 3 \<and> premier 7 \<and> (2 :: int) ^ 3 * 3 ^ 2 * 7 ^ 1 = 504"
proof -
  have run: "factorise 504 = Some [(2, 3), (3, 2), (7, 1)]" by code_simp
  from factorise_spec [of 504] run
  have "(\<forall>(p, alpha) \<in> set [(2, 3), (3, 2), (7, 1 :: int)]. premier p \<and> 1 \<le> alpha)"
    by auto
  then have "premier 2 \<and> premier 3 \<and> premier 7" by simp
  with run show ?thesis by simp
qed

text \<open>
  Claim C10. For every \<open>n \<ge> 1\<close> the loop \<open>while m != 1\<close> of \<open>factorise\<close> exits: the call
  returns a list. The loop lemma \<open>factorise_loop_spec\<close> is proved by well-founded induction
  on \<open>2 * m - p\<close>, which each turn decreases: a division at least halves \<open>m\<close>, and a
  candidate \<open>p\<close> that does not divide \<open>m > 1\<close> is less than \<open>m\<close>.
\<close>

theorem factorise_terminates:
  assumes "1 \<le> n"
  shows "\<exists>fs. factorise n = Some fs"
  using factorise_returns [OF assms] by blast

theorem factorise_terminates_witness:
  "(1 :: int) \<le> 9929 \<and> (\<exists>fs. factorise 9929 = Some fs)"
  using factorise_terminates [of 9929] by simp

section \<open>Properties of \<open>eratosthene\<close>\<close>

lemma petit_diviseur:
  assumes "2 \<le> k" and "\<not> premier k"
  shows "\<exists>d. 2 \<le> d \<and> d * d \<le> k \<and> d dvd k"
proof -
  from assms obtain d where d: "2 \<le> d" "d \<le> k - 1" "d dvd k"
    by (auto simp: premier_def)
  define e where "e = k div d"
  have k: "k = d * e" using d(3) by (simp add: e_def)
  have e2: "2 \<le> e"
  proof (rule ccontr)
    assume "\<not> 2 \<le> e"
    then have "e \<le> 1" by simp
    with d(1) have "d * e \<le> d * 1" by (intro mult_left_mono) auto
    with k d(2) show False by simp
  qed
  show ?thesis
  proof (cases "d \<le> e")
    case True
    with d(1) have "d * d \<le> d * e" by (intro mult_left_mono) auto
    with k d show ?thesis by auto
  next
    case False
    with e2 have "e * e \<le> d * e" by (intro mult_right_mono) auto
    moreover have "e dvd k" using k by simp
    ultimately show ?thesis using k e2 by auto
  qed
qed

lemma carre_mono:
  fixes d p :: int
  assumes "0 \<le> d" and "d * d < p * p" and "0 \<le> p"
  shows "d < p"
proof (rule ccontr)
  assume "\<not> d < p"
  then have "p \<le> d" by simp
  with assms(3) have "p * p \<le> d * d" by (intro mult_mono) auto
  with assms(2) show False by simp
qed

lemma eratosthene_barre_exit: "n < mp \<Longrightarrow> eratosthene_barre n p barres mp = Some barres"
  by (subst eratosthene_barre.simps) simp

lemma eratosthene_barre_step:
  "mp \<le> n \<Longrightarrow>
   eratosthene_barre n p barres mp = eratosthene_barre n p (insert mp barres) (mp + p)"
  by (subst eratosthene_barre.simps) simp

lemma eratosthene_barre_spec:
  assumes "0 < p"
  shows "eratosthene_barre n p barres mp =
         Some (barres \<union> {x. x \<le> n \<and> (\<exists>k\<ge>0. x = mp + k * p)})"
  using assms
proof (induction "nat (n + 1 - mp)" arbitrary: mp barres rule: less_induct)
  case less
  show ?case
  proof (cases "mp \<le> n")
    case False
    have empty: "{x. x \<le> n \<and> (\<exists>k\<ge>0. x = mp + k * p)} = {}"
    proof -
      have "n < mp + k * p" if "0 \<le> k" for k
      proof -
        have "0 \<le> k * p" using that less.prems by simp
        with False show ?thesis by simp
      qed
      then show ?thesis by force
    qed
    from False have "eratosthene_barre n p barres mp = Some barres"
      by (simp add: eratosthene_barre_exit)
    then show ?thesis unfolding empty by simp
  next
    case True
    have meas: "nat (n + 1 - (mp + p)) < nat (n + 1 - mp)"
      using True less.prems by simp
    have "insert mp {x. x \<le> n \<and> (\<exists>k\<ge>0. x = mp + p + k * p)} =
          {x. x \<le> n \<and> (\<exists>k\<ge>0. x = mp + k * p)}" (is "?L = ?R")
    proof (intro set_eqI iffI)
      fix x assume "x \<in> ?L"
      then consider "x = mp" | k where "x \<le> n" "0 \<le> k" "x = mp + p + k * p" by auto
      then show "x \<in> ?R"
      proof cases
        case 1
        with True show ?thesis by (auto intro: exI [of _ 0])
      next
        case 2
        then have "0 \<le> k + 1 \<and> x = mp + (k + 1) * p" by (simp add: algebra_simps)
        with 2(1) show ?thesis by blast
      qed
    next
      fix x assume "x \<in> ?R"
      then obtain k where k: "x \<le> n" "0 \<le> k" "x = mp + k * p" by auto
      show "x \<in> ?L"
      proof (cases "k = 0")
        case True
        with k show ?thesis by simp
      next
        case False
        with k have "0 \<le> k - 1 \<and> x = mp + p + (k - 1) * p" by (simp add: algebra_simps)
        with k(1) show ?thesis by blast
      qed
    qed
    then have "insert mp barres \<union> {x. x \<le> n \<and> (\<exists>k\<ge>0. x = mp + p + k * p)} =
               barres \<union> {x. x \<le> n \<and> (\<exists>k\<ge>0. x = mp + k * p)}"
      by blast
    with less.hyps [OF meas less.prems, of "insert mp barres"] True
    show ?thesis by (simp add: eratosthene_barre_step)
  qed
qed

lemma fold_premiers:
  "fold (\<lambda>k premiers. if k \<notin> barres then premiers @ [k] else premiers) ks premiers =
   premiers @ filter (\<lambda>k. k \<notin> barres) ks"
  by (induction ks arbitrary: premiers) auto

lemma eratosthene_crible_exit:
  "n < p * p \<Longrightarrow> eratosthene_crible n premiers barres p = Some (premiers, barres, p)"
  by (subst eratosthene_crible.simps) simp

lemma eratosthene_crible_premier:
  "p * p \<le> n \<Longrightarrow> p \<notin> barres \<Longrightarrow>
   eratosthene_crible n premiers barres p =
   Option.bind (eratosthene_barre n p barres (p + p))
     (\<lambda>barres'. eratosthene_crible n (premiers @ [p]) barres' (p + 1))"
  by (subst eratosthene_crible.simps) simp

lemma eratosthene_crible_barre:
  "p * p \<le> n \<Longrightarrow> p \<in> barres \<Longrightarrow>
   eratosthene_crible n premiers barres p = eratosthene_crible n premiers barres (p + 1)"
  by (subst eratosthene_crible.simps) simp

lemma le_carre: "2 \<le> p \<Longrightarrow> p * p \<le> n \<Longrightarrow> p \<le> (n :: int)"
proof -
  assume p: "2 \<le> p" and n: "p * p \<le> n"
  from p have "p * 1 \<le> p * p" by (intro mult_left_mono) auto
  with n show ?thesis by simp
qed

lemma barres_avant_premier:
  assumes "2 \<le> p" and "p \<le> n"
  shows "p \<notin> barres_avant n p \<longleftrightarrow> premier p"
  using assms by (auto simp: barres_avant_def premier_def)

lemma barres_avant_Suc_premier:
  assumes "2 \<le> p"
  shows "barres_avant n p \<union> {x. x \<le> n \<and> (\<exists>k\<ge>0. x = p + p + k * p)} = barres_avant n (p + 1)"
    (is "?L = ?R")
proof (intro set_eqI iffI)
  fix x assume "x \<in> ?L"
  then consider "x \<in> barres_avant n p" | k where "x \<le> n" "0 \<le> k" "x = p + p + k * p"
    by auto
  then show "x \<in> ?R"
  proof cases
    case 1
    then show ?thesis by (auto simp: barres_avant_def)
  next
    case 2
    have x: "x = p * (k + 2)" using 2(3) by (simp add: algebra_simps)
    have "p * 1 < p * (k + 2)" using assms 2(2) by (intro mult_strict_left_mono) auto
    with x have "p < x" by simp
    moreover have "p dvd x" using x by simp
    ultimately show ?thesis using assms 2(1) by (auto simp: barres_avant_def)
  qed
next
  fix x assume "x \<in> ?R"
  then obtain d where d: "x \<le> n" "2 \<le> d" "d < p + 1" "d < x" "d dvd x"
    by (auto simp: barres_avant_def)
  show "x \<in> ?L"
  proof (cases "d = p")
    case False
    with d show ?thesis by (auto simp: barres_avant_def)
  next
    case True
    with d(5) obtain j where j: "x = p * j" by (auto simp: dvd_def)
    have "2 \<le> j"
    proof (rule ccontr)
      assume "\<not> 2 \<le> j"
      then have "j \<le> 1" by simp
      with assms have "p * j \<le> p * 1" by (intro mult_left_mono) auto
      with j d(4) True show False by simp
    qed
    then have "0 \<le> j - 2 \<and> x = p + p + (j - 2) * p"
      using j by (simp add: algebra_simps)
    with d(1) show ?thesis by blast
  qed
qed

lemma barres_avant_Suc_barre:
  assumes "p \<in> barres_avant n p"
  shows "barres_avant n (p + 1) = barres_avant n p" (is "?L = ?R")
proof (intro set_eqI iffI)
  fix x assume "x \<in> ?L"
  then obtain d where d: "x \<le> n" "2 \<le> d" "d < p + 1" "d < x" "d dvd x"
    by (auto simp: barres_avant_def)
  show "x \<in> ?R"
  proof (cases "d = p")
    case False
    with d show ?thesis by (auto simp: barres_avant_def)
  next
    case True
    from assms obtain e where e: "2 \<le> e" "e < p" "e dvd p"
      by (auto simp: barres_avant_def)
    with True d have "e < x" "e dvd x" by (auto intro: dvd_trans)
    with e d(1) show ?thesis by (auto simp: barres_avant_def)
  qed
next
  fix x assume "x \<in> ?R"
  then show "x \<in> ?L" by (auto simp: barres_avant_def)
qed

lemma filter_premier_Suc:
  assumes "2 \<le> p"
  shows "filter premier [2..p + 1 - 1] =
         (if premier p then filter premier [2..p - 1] @ [p] else filter premier [2..p - 1])"
proof -
  have "[2..p] = [2..p - 1] @ [p]" using assms by (rule upto_rec2)
  then show ?thesis by simp
qed

lemma eratosthene_crible_spec:
  assumes "2 \<le> p" and "p = 2 \<or> (p - 1) * (p - 1) \<le> n"
  shows "\<exists>p'. eratosthene_crible n (filter premier [2..p - 1]) (barres_avant n p) p =
                 Some (filter premier [2..p' - 1], barres_avant n p', p') \<and>
              2 \<le> p' \<and> n < p' * p' \<and> (p' = 2 \<or> (p' - 1) * (p' - 1) \<le> n)"
  using assms
proof (induction "nat (n + 1 - p)" arbitrary: p rule: less_induct)
  case less
  show ?case
  proof (cases "p * p \<le> n")
    case False
    then have "eratosthene_crible n (filter premier [2..p - 1]) (barres_avant n p) p =
               Some (filter premier [2..p - 1], barres_avant n p, p)"
      by (simp add: eratosthene_crible_exit)
    with False less.prems show ?thesis by (intro exI [of _ p]) simp
  next
    case True
    have pn: "p \<le> n" using less.prems(1) True by (rule le_carre)
    have meas: "nat (n + 1 - (p + 1)) < nat (n + 1 - p)" using pn by simp
    have p2: "2 \<le> p + 1" using less.prems(1) by simp
    have sq: "p + 1 = 2 \<or> (p + 1 - 1) * (p + 1 - 1) \<le> n" using True by simp
    from less.hyps [OF meas p2 sq]
    obtain p' where rec: "eratosthene_crible n (filter premier [2..p + 1 - 1])
                            (barres_avant n (p + 1)) (p + 1) =
                          Some (filter premier [2..p' - 1], barres_avant n p', p')"
      and p': "2 \<le> p'" "n < p' * p'" "p' = 2 \<or> (p' - 1) * (p' - 1) \<le> n"
      by blast
    have "eratosthene_crible n (filter premier [2..p - 1]) (barres_avant n p) p =
          eratosthene_crible n (filter premier [2..p + 1 - 1]) (barres_avant n (p + 1)) (p + 1)"
    proof (cases "p \<in> barres_avant n p")
      case True
      then have "\<not> premier p"
        using barres_avant_premier [OF less.prems(1) pn] by simp
      with True \<open>p * p \<le> n\<close> show ?thesis
        by (simp only: eratosthene_crible_barre barres_avant_Suc_barre
              filter_premier_Suc [OF less.prems(1)] if_False)
    next
      case False
      then have prem: "premier p"
        using barres_avant_premier [OF less.prems(1) pn] by simp
      have pos: "0 < p" using less.prems(1) by simp
      have "eratosthene_crible n (filter premier [2..p - 1]) (barres_avant n p) p =
            Option.bind (eratosthene_barre n p (barres_avant n p) (p + p))
              (\<lambda>barres'. eratosthene_crible n (filter premier [2..p - 1] @ [p]) barres' (p + 1))"
        using True False by (rule eratosthene_crible_premier)
      also have "\<dots> = eratosthene_crible n (filter premier [2..p - 1] @ [p])
                         (barres_avant n (p + 1)) (p + 1)"
        by (simp only: eratosthene_barre_spec [OF pos]
              barres_avant_Suc_premier [OF less.prems(1)] Option.bind.simps)
      finally show ?thesis
        by (simp only: filter_premier_Suc [OF less.prems(1)] prem if_True)
    qed
    with rec p' show ?thesis by (intro exI [of _ p']) simp
  qed
qed

lemma non_barre_premier:
  assumes "2 \<le> p'" and "n < p' * p'" and "p' \<le> k" and "k \<le> n"
  shows "k \<notin> barres_avant n p' \<longleftrightarrow> premier k"
proof
  assume nb: "k \<notin> barres_avant n p'"
  show "premier k"
  proof (rule ccontr)
    assume np: "\<not> premier k"
    have "2 \<le> k" using assms(1,3) by simp
    from petit_diviseur [OF this np]
    obtain d where d: "2 \<le> d" "d * d \<le> k" "d dvd k" by blast
    have sq: "d * d < p' * p'" using d(2) assms(2,4) by linarith
    have d0: "0 \<le> d" using d(1) by simp
    have p0: "0 \<le> p'" using assms(1) by simp
    have dp: "d < p'" using d0 sq p0 by (rule carre_mono)
    have dk: "d < k" using dp assms(3) by simp
    have "\<exists>e. 2 \<le> e \<and> e < p' \<and> e < k \<and> e dvd k"
      using d(1,3) dp dk by blast
    then have "k \<in> barres_avant n p'"
      using assms(4) by (simp add: barres_avant_def)
    with nb show False by simp
  qed
next
  assume pk: "premier k"
  show "k \<notin> barres_avant n p'"
  proof
    assume "k \<in> barres_avant n p'"
    then obtain e where e: "2 \<le> e" "e < k" "e dvd k"
      by (auto simp: barres_avant_def)
    then have "e \<in> {2..k - 1}" by simp
    with pk e(3) show False unfolding premier_def by blast
  qed
qed

lemma eratosthene_premiers: "eratosthene n = Some (filter premier [2..n])"
proof -
  have init: "barres_avant n 2 = {}" by (auto simp: barres_avant_def)
  from eratosthene_crible_spec [of 2 n]
  obtain p' where run: "eratosthene_crible n (filter premier [2..2 - 1]) (barres_avant n 2) 2 =
                          Some (filter premier [2..p' - 1], barres_avant n p', p')"
    and p': "2 \<le> p'" "n < p' * p'" "p' = 2 \<or> (p' - 1) * (p' - 1) \<le> n"
    by auto
  from run have crible: "eratosthene_crible n [] {} 2 =
                           Some (filter premier [2..p' - 1], barres_avant n p', p')"
    by (simp add: init)
  have rest: "filter (\<lambda>k. k \<notin> barres_avant n p') [p'..n] = filter premier [p'..n]"
    by (rule filter_cong) (use p' in \<open>auto simp: non_barre_premier\<close>)
  have split: "filter premier [2..p' - 1] @ filter premier [p'..n] = filter premier [2..n]"
  proof (cases "p' = 2")
    case True
    then show ?thesis by simp
  next
    case False
    with p'(3) have sq: "(p' - 1) * (p' - 1) \<le> n" by simp
    have "2 \<le> p' - 1" using False p'(1) by simp
    then have le: "p' - 1 \<le> n" using sq by (rule le_carre)
    have "[2..n] = [2..p' - 1] @ [p'..n]"
    proof (cases "p' \<le> n")
      case True
      with p'(1) show ?thesis by (rule upto_split1)
    next
      case False
      with le have "n = p' - 1" by simp
      then show ?thesis by simp
    qed
    then show ?thesis by simp
  qed
  show ?thesis
    by (simp add: eratosthene_def crible fold_premiers rest split)
qed

text \<open>
  Claim C6. For every \<open>n \<ge> 2\<close>, \<open>eratosthene n\<close> returns a strictly ascending list,
  without duplicates, whose members are exactly the primes of \<open>[2, n]\<close>.
\<close>

theorem eratosthene_spec:
  assumes "2 \<le> n"
  shows "\<exists>premiers. eratosthene n = Some premiers \<and>
           sorted_wrt (<) premiers \<and> distinct premiers \<and>
           set premiers = {k. 2 \<le> k \<and> k \<le> n \<and> premier k}"
proof -
  have "sorted_wrt (<) (filter premier [2..n])"
    by (intro sorted_wrt_filter) simp
  moreover have "distinct (filter premier [2..n])" by simp
  moreover have "set (filter premier [2..n]) = {k. 2 \<le> k \<and> k \<le> n \<and> premier k}" by auto
  ultimately show ?thesis
    using eratosthene_premiers [of n] by blast
qed

theorem eratosthene_spec_witness:
  "(2 :: int) \<le> 40 \<and>
   eratosthene 40 = Some [2, 3, 5, 7, 11, 13, 17, 19, 23, 29, 31, 37] \<and>
   set [2, 3, 5, 7, 11, 13, 17, 19, 23, 29, 31, 37] = {k. 2 \<le> k \<and> k \<le> 40 \<and> premier k}"
proof -
  have run: "eratosthene 40 = Some [2, 3, 5, 7, 11, 13, 17, 19, 23, 29, 31, 37]"
    by code_simp
  from eratosthene_spec [of 40] run
  have "set [2, 3, 5, 7, 11, 13, 17, 19, 23, 29, 31, 37] = {k. 2 \<le> k \<and> k \<le> 40 \<and> premier k}"
    by auto
  with run show ?thesis by simp
qed

section \<open>Properties of \<open>plus_petit_diviseur\<close> and of the primality tests\<close>

declare plus_petit_diviseur_loop.simps [simp del]

lemma plus_petit_diviseur_loop_exit:
  "\<not> (d * d \<le> n \<and> n mod d \<noteq> 0) \<Longrightarrow> plus_petit_diviseur_loop n d = d"
  by (subst plus_petit_diviseur_loop.simps) (erule if_not_P)

lemma plus_petit_diviseur_loop_step:
  "d * d \<le> n \<Longrightarrow> n mod d \<noteq> 0 \<Longrightarrow>
   plus_petit_diviseur_loop n d = plus_petit_diviseur_loop n (d + 1)"
  by (subst plus_petit_diviseur_loop.simps) simp

lemma plus_petit_diviseur_loop_spec:
  assumes "2 \<le> d" and "\<forall>e. 2 \<le> e \<and> e < d \<longrightarrow> \<not> e dvd n"
  shows "2 \<le> plus_petit_diviseur_loop n d \<and>
         (\<forall>e. 2 \<le> e \<and> e < plus_petit_diviseur_loop n d \<longrightarrow> \<not> e dvd n) \<and>
         (plus_petit_diviseur_loop n d * plus_petit_diviseur_loop n d \<le> n \<longrightarrow>
            plus_petit_diviseur_loop n d dvd n)"
  using assms
proof (induction n d rule: plus_petit_diviseur_loop.induct)
  case (1 n d)
  show ?case
  proof (cases "d * d \<le> n \<and> n mod d \<noteq> 0")
    case False
    then have r: "plus_petit_diviseur_loop n d = d"
      by (rule plus_petit_diviseur_loop_exit)
    from False have "d * d \<le> n \<longrightarrow> d dvd n" by (auto simp: dvd_eq_mod_eq_0)
    with "1.prems" show ?thesis unfolding r by blast
  next
    case True
    then have r: "plus_petit_diviseur_loop n d = plus_petit_diviseur_loop n (d + 1)"
      by (simp add: plus_petit_diviseur_loop_step)
    from True have nd: "\<not> d dvd n" by (simp add: dvd_eq_mod_eq_0)
    have d2: "2 \<le> d + 1" using "1.prems"(1) by simp
    have none: "\<forall>e. 2 \<le> e \<and> e < d + 1 \<longrightarrow> \<not> e dvd n"
    proof (intro allI impI)
      fix e assume e: "2 \<le> e \<and> e < d + 1"
      show "\<not> e dvd n"
      proof (cases "e = d")
        case True
        with nd show ?thesis by simp
      next
        case False
        with e have "2 \<le> e \<and> e < d" by simp
        with "1.prems"(2) show ?thesis by blast
      qed
    qed
    from "1.IH" [OF True d2 none] show ?thesis unfolding r .
  qed
qed

lemma est_premier2_premier:
  assumes "2 \<le> n"
  shows "est_premier2 n \<longleftrightarrow> premier n"
proof -
  define r where "r = plus_petit_diviseur_loop n 2"
  have spec: "2 \<le> r \<and> (\<forall>e. 2 \<le> e \<and> e < r \<longrightarrow> \<not> e dvd n) \<and> (r * r \<le> n \<longrightarrow> r dvd n)"
    unfolding r_def by (rule plus_petit_diviseur_loop_spec) auto
  then have r2: "2 \<le> r" and none: "\<And>e. 2 \<le> e \<Longrightarrow> e < r \<Longrightarrow> \<not> e dvd n"
    and dv: "r * r \<le> n \<Longrightarrow> r dvd n"
    by blast+
  show ?thesis
  proof (cases "r * r \<le> n")
    case True
    have "r * 2 \<le> r * r" using r2 by (intro mult_left_mono) auto
    with True r2 have rn: "r < n" by linarith
    then have "\<not> est_premier2 n"
      using True by (simp add: est_premier2_def plus_petit_diviseur_def r_def [symmetric])
    moreover have "\<not> premier n"
    proof
      assume "premier n"
      moreover have "r \<in> {2..n - 1}" using r2 rn by simp
      ultimately have "\<not> r dvd n" unfolding premier_def by blast
      with dv [OF True] show False by simp
    qed
    ultimately show ?thesis by simp
  next
    case False
    then have "est_premier2 n"
      by (simp add: est_premier2_def plus_petit_diviseur_def r_def [symmetric])
    moreover have "premier n"
    proof (rule ccontr)
      assume np: "\<not> premier n"
      from petit_diviseur [OF assms np]
      obtain d where d: "2 \<le> d" "d * d \<le> n" "d dvd n" by blast
      have sq: "d * d < r * r" using d(2) False by linarith
      have d0: "0 \<le> d" using d(1) by simp
      have r0: "0 \<le> r" using r2 by simp
      have "d < r" using d0 sq r0 by (rule carre_mono)
      from none [OF d(1) this] d(3) show False by simp
    qed
    ultimately show ?thesis by simp
  qed
qed

lemma est_premier1_premier:
  assumes "2 \<le> n"
  shows "est_premier1 n = Some (premier n)"
  using assms by (auto simp: est_premier1_def eratosthene_premiers)

text \<open>
  Claim C9. For every \<open>n \<ge> 2\<close> the two primality tests return the same boolean, and it
  is true exactly when \<open>n\<close> is prime.
\<close>

theorem est_premier1_est_premier2:
  assumes "2 \<le> n"
  shows "est_premier1 n = Some (est_premier2 n) \<and> (est_premier2 n \<longleftrightarrow> premier n)"
  using est_premier1_premier [OF assms] est_premier2_premier [OF assms] by simp

theorem est_premier1_est_premier2_witness:
  "(2 :: int) \<le> 97 \<and> est_premier1 97 = Some True \<and> est_premier2 97 \<and> premier 97 \<and>
   (2 :: int) \<le> 91 \<and> est_premier1 91 = Some False \<and> \<not> est_premier2 91 \<and> \<not> premier 91"
proof -
  have a: "est_premier2 97" and b: "\<not> est_premier2 91" by code_simp+
  from est_premier1_est_premier2 [of 97] a
  have "est_premier1 97 = Some True \<and> premier 97" by simp
  moreover from est_premier1_est_premier2 [of 91] b
  have "est_premier1 91 = Some False \<and> \<not> premier 91" by simp
  ultimately show ?thesis using a b by simp
qed

section \<open>Properties of the Fermat test\<close>

lemma est_temoin_non_primalite_spec:
  assumes "2 \<le> n"
  shows "est_temoin_non_primalite a n =
         Some (Return (gcd a n = 1 \<and> a ^ nat (n - 1) mod n \<noteq> 1))"
proof (cases "gcd a n = 1")
  case False
  then show ?thesis by (simp add: est_temoin_non_primalite_def pgcd_gcd)
next
  case True
  have k: "0 \<le> n - 1" and n: "0 < n" and k0: "0 < n - 1" using assms by simp_all
  from expo_mod_rapide_loop_spec [OF k n, of 1 a] k0
  have "expo_mod_rapide a (n - 1) n = Some (Return (a ^ nat (n - 1) mod n))"
    by (auto simp: expo_mod_rapide_def)
  with True show ?thesis by (simp add: est_temoin_non_primalite_def pgcd_gcd)
qed

lemma any_temoin_spec:
  assumes "4 \<le> n"
  shows "any_temoin n src i k =
         Some (Return (\<exists>j. i \<le> j \<and> j < i + k \<and>
                         gcd (src j) n = 1 \<and> src j ^ nat (n - 1) mod n \<noteq> 1))"
proof -
  define T where "T j \<longleftrightarrow> gcd (src j) n = 1 \<and> src j ^ nat (n - 1) mod n \<noteq> 1" for j
  have n2: "2 \<le> n" using assms by simp
  have temoin: "est_temoin_non_primalite (src j) n = Some (Return (T j))" for j
    unfolding T_def by (rule est_temoin_non_primalite_spec [OF n2])
  have range: "randrange 2 (n - 1) (src j) = Return (src j)" for j
    using assms by (simp add: randrange_def)
  have "any_temoin n src i k = Some (Return (\<exists>j. i \<le> j \<and> j < i + k \<and> T j))"
  proof (induction k arbitrary: i)
    case 0
    then show ?case by simp
  next
    case (Suc k)
    show ?case
    proof (cases "T i")
      case True
      then have "any_temoin n src i (Suc k) = Some (Return True)"
        by (simp add: range temoin)
      moreover from True have "\<exists>j. i \<le> j \<and> j < i + Suc k \<and> T j"
        by (intro exI [of _ i]) simp
      ultimately show ?thesis by simp
    next
      case False
      then have step: "any_temoin n src i (Suc k) = any_temoin n src (Suc i) k"
        by (simp add: range temoin)
      have "(\<exists>j. Suc i \<le> j \<and> j < Suc i + k \<and> T j) \<longleftrightarrow> (\<exists>j. i \<le> j \<and> j < i + Suc k \<and> T j)"
        (is "?A \<longleftrightarrow> ?B")
      proof
        assume ?A
        then obtain j where "Suc i \<le> j \<and> j < Suc i + k \<and> T j" ..
        then have "i \<le> j \<and> j < i + Suc k \<and> T j" by simp
        then show ?B ..
      next
        assume ?B
        then obtain j where j: "i \<le> j \<and> j < i + Suc k \<and> T j" ..
        with False have "j \<noteq> i" by auto
        with j have "Suc i \<le> j \<and> j < Suc i + k \<and> T j" by simp
        then show ?A ..
      qed
      with step Suc.IH [of "Suc i"] show ?thesis by simp
    qed
  qed
  then show ?thesis unfolding T_def .
qed

text \<open>
  From \<open>n = 4\<close> on the test returns: with the draws \<open>src 0\<close>, \<open>src 1\<close>, \<dots> taken in
  \<open>[2, n - 2]\<close>, it is false exactly when one of the first \<open>nbtentatives\<close> draws is a
  Fermat witness of \<open>n\<close>.
\<close>

lemma est_premier_probable_fermat_from_4:
  assumes "4 \<le> n" and "\<forall>j. 2 \<le> src j \<and> src j \<le> n - 2"
  shows "est_premier_probable_fermat n nbtentatives src =
         Some (Return (\<not> (\<exists>j < nat nbtentatives.
                            gcd (src j) n = 1 \<and> src j ^ nat (n - 1) mod n \<noteq> 1)))"
  by (simp add: est_premier_probable_fermat_def any_temoin_spec [OF assms(1)])

text \<open>
  Claim C2 fails at \<open>n = 3\<close>, which the docstring allows (\<open>CU: n >= 3\<close>): the range
  \<open>[2, n - 1)\<close> of \<open>randrange(2, n - 1)\<close> is empty, so the first draw raises
  \<open>ValueError\<close>, whatever the source, as soon as one attempt is made.
\<close>

theorem est_premier_probable_fermat_3:
  assumes "0 < nbtentatives"
  shows "est_premier_probable_fermat 3 nbtentatives src = Some (Raise ValueError)"
proof -
  from assms obtain k where k: "nat nbtentatives = Suc k"
    by (cases "nat nbtentatives") auto
  show ?thesis
    by (simp add: est_premier_probable_fermat_def k randrange_def)
qed

theorem est_premier_probable_fermat_3_witness:
  "(0 :: int) < 20 \<and> est_premier_probable_fermat 3 20 (\<lambda>i. 2) = Some (Raise ValueError)"
  using est_premier_probable_fermat_3 [of 20 "\<lambda>i. 2"] by simp

section \<open>Calls outside the conditions of use\<close>













end
